theory Spec2Isabelle
  imports Complex_Main "HOL-Library.Finite_Map"
begin

section \<open>The Value node and the heap of nodes\<close>

text \<open>
  A \<^verbatim>\<open>ValuePtr\<close> is a \<^verbatim>\<open>std::shared_ptr<Value>\<close>; node identity is the address of the
  \<^verbatim>\<open>Value\<close> it points to. The heap maps the address of every live node to its fields.
  A \<^verbatim>\<open>double\<close> is modelled by a real number: the arithmetic is exact, and NaN and the
  infinities are outside the model.
\<close>

type_synonym ptr = nat

text \<open>
  The closures assigned to \<^verbatim>\<open>m_backward_fn\<close>, one constructor per lambda of value.cpp,
  carrying the lambda's captures in the order of its capture list.
\<close>

datatype backward_fn =
    Noop
  | AddFn ptr ptr ptr
  | MulFn ptr ptr ptr
  | TanhFn ptr real ptr
  | ExpFn ptr real ptr
  | PowFn ptr real ptr

text \<open>
  \<^verbatim>\<open>m_prev\<close> is a \<^verbatim>\<open>std::set<ValuePtr>\<close>: it is kept as the sequence its iterator yields,
  ascending by address and without duplicates. \<^verbatim>\<open>m_backward_fn\<close> is a
  \<^verbatim>\<open>std::function<void()>\<close>, which may be empty (\<open>None\<close>).
\<close>

record Value =
  m_data :: real
  m_grad :: real
  m_label :: string
  m_op :: string
  m_prev :: "ptr list"
  m_backward_fn :: "backward_fn option"

type_synonym heap = "(ptr, Value) fmap"

definition std_set_insert :: "ptr \<Rightarrow> ptr list \<Rightarrow> ptr list" where
  "std_set_insert x s = (if x \<in> set s then s else insort x s)"

text \<open>Construction of a \<^verbatim>\<open>std::set\<close> from an initializer list.\<close>

definition std_set :: "ptr list \<Rightarrow> ptr list" where
  "std_set xs = foldl (\<lambda>s x. std_set_insert x s) [] xs"

subsection \<open>Constructors\<close>

definition Value_leaf :: "real \<Rightarrow> string \<Rightarrow> Value" where
  "Value_leaf data label =
     \<lparr>m_data = data, m_grad = 0, m_label = label, m_op = '''', m_prev = [],
      m_backward_fn = Some Noop\<rparr>"

definition Value_op :: "real \<Rightarrow> ptr list \<Rightarrow> string \<Rightarrow> string \<Rightarrow> Value" where
  "Value_op data children op label =
     \<lparr>m_data = data, m_grad = 0, m_label = label, m_op = op, m_prev = children,
      m_backward_fn = Some Noop\<rparr>"

subsection \<open>Accessors and mutators\<close>

text \<open>
  Shared ownership keeps a node alive as long as a pointer to it exists, so the program
  never dereferences an address that is not in the heap. The model is total all the same:
  reading through such an address gives 0 (or no operands), writing through it changes
  nothing.
\<close>

definition data :: "heap \<Rightarrow> ptr \<Rightarrow> real" where
  "data h p = (case fmlookup h p of None \<Rightarrow> 0 | Some n \<Rightarrow> m_data n)"

definition grad :: "heap \<Rightarrow> ptr \<Rightarrow> real" where
  "grad h p = (case fmlookup h p of None \<Rightarrow> 0 | Some n \<Rightarrow> m_grad n)"

definition label :: "heap \<Rightarrow> ptr \<Rightarrow> string" where
  "label h p = (case fmlookup h p of None \<Rightarrow> '''' | Some n \<Rightarrow> m_label n)"

definition prev_of :: "heap \<Rightarrow> ptr \<Rightarrow> ptr list" where
  "prev_of h p = (case fmlookup h p of None \<Rightarrow> [] | Some n \<Rightarrow> m_prev n)"

definition backward_fn_of :: "heap \<Rightarrow> ptr \<Rightarrow> backward_fn option" where
  "backward_fn_of h p = (case fmlookup h p of None \<Rightarrow> None | Some n \<Rightarrow> m_backward_fn n)"

definition modify :: "ptr \<Rightarrow> (Value \<Rightarrow> Value) \<Rightarrow> heap \<Rightarrow> heap" where
  "modify p f h = (case fmlookup h p of None \<Rightarrow> h | Some n \<Rightarrow> fmupd p (f n) h)"

definition set_data :: "ptr \<Rightarrow> real \<Rightarrow> heap \<Rightarrow> heap" where
  "set_data p d h = modify p (\<lambda>n. n\<lparr>m_data := d\<rparr>) h"

definition set_grad :: "ptr \<Rightarrow> real \<Rightarrow> heap \<Rightarrow> heap" where
  "set_grad p g h = modify p (\<lambda>n. n\<lparr>m_grad := g\<rparr>) h"

definition add_to_grad :: "ptr \<Rightarrow> real \<Rightarrow> heap \<Rightarrow> heap" where
  "add_to_grad p grad_increment h = modify p (\<lambda>n. n\<lparr>m_grad := m_grad n + grad_increment\<rparr>) h"

definition zero_grad :: "ptr \<Rightarrow> heap \<Rightarrow> heap" where
  "zero_grad p h = modify p (\<lambda>n. n\<lparr>m_grad := 0\<rparr>) h"

definition set_label :: "ptr \<Rightarrow> string \<Rightarrow> heap \<Rightarrow> heap" where
  "set_label p l h = modify p (\<lambda>n. n\<lparr>m_label := l\<rparr>) h"

definition set_backward_fn :: "ptr \<Rightarrow> backward_fn \<Rightarrow> heap \<Rightarrow> heap" where
  "set_backward_fn p f h = modify p (\<lambda>n. n\<lparr>m_backward_fn := Some f\<rparr>) h"

subsection \<open>Factory functions\<close>

text \<open>
  \<^verbatim>\<open>std::make_shared\<close> places the new node at an address \<open>p\<close> that the allocator chooses;
  the address is an argument of every function that allocates, and the caller of the
  model states that it is not in use.
\<close>

definition make_value :: "ptr \<Rightarrow> real \<Rightarrow> string \<Rightarrow> heap \<Rightarrow> heap" where
  "make_value p d l h = fmupd p (Value_leaf d l) h"

definition make_value_op :: "ptr \<Rightarrow> real \<Rightarrow> ptr list \<Rightarrow> string \<Rightarrow> string \<Rightarrow> heap \<Rightarrow> heap" where
  "make_value_op p d children op l h = fmupd p (Value_op d children op l) h"

section \<open>The operator layer\<close>

text \<open>
  \<^verbatim>\<open>std::pow\<close> on the arguments where its result is finite: an integral exponent is a
  repeated product or quotient (also for a negative base), any other exponent is
  \<open>exp (y * ln x)\<close> on a positive base and 0 on base 0.
\<close>

definition std_pow :: "real \<Rightarrow> real \<Rightarrow> real" where
  "std_pow x y = (if of_int \<lfloor>y\<rfloor> = y then x powi \<lfloor>y\<rfloor> else x powr y)"

definition operator_add :: "ptr \<Rightarrow> ptr \<Rightarrow> ptr \<Rightarrow> heap \<Rightarrow> heap" where
  "operator_add out lhs rhs h =
     set_backward_fn out (AddFn lhs rhs out)
       (make_value_op out (data h lhs + data h rhs) (std_set [lhs, rhs]) ''+'' '''' h)"

definition operator_mul :: "ptr \<Rightarrow> ptr \<Rightarrow> ptr \<Rightarrow> heap \<Rightarrow> heap" where
  "operator_mul out lhs rhs h =
     set_backward_fn out (MulFn lhs rhs out)
       (make_value_op out (data h lhs * data h rhs) (std_set [lhs, rhs]) ''*'' '''' h)"

definition tanh_value :: "ptr \<Rightarrow> ptr \<Rightarrow> heap \<Rightarrow> heap" where
  "tanh_value out v h =
     (let t = tanh (data h v)
      in set_backward_fn out (TanhFn v t out) (make_value_op out t (std_set [v]) ''tanh'' '''' h))"

definition exp_value :: "ptr \<Rightarrow> ptr \<Rightarrow> heap \<Rightarrow> heap" where
  "exp_value out v h =
     (let e = exp (data h v)
      in set_backward_fn out (ExpFn v e out) (make_value_op out e (std_set [v]) ''exp'' '''' h))"

definition pow_value :: "ptr \<Rightarrow> ptr \<Rightarrow> real \<Rightarrow> heap \<Rightarrow> heap" where
  "pow_value out base exp_val h =
     (let result = std_pow (data h base) exp_val
      in set_backward_fn out (PowFn base exp_val out)
           (make_value_op out result (std_set [base]) ''pow'' '''' h))"

text \<open>
  The overloads for \<^verbatim>\<open>double\<close>: the scalar becomes a new unlabelled node at \<open>tmp\<close>, then the
  node form is used.
\<close>

definition operator_add_vd :: "ptr \<Rightarrow> ptr \<Rightarrow> ptr \<Rightarrow> real \<Rightarrow> heap \<Rightarrow> heap" where
  "operator_add_vd tmp out lhs rhs_val h = operator_add out lhs tmp (make_value tmp rhs_val '''' h)"

definition operator_add_dv :: "ptr \<Rightarrow> ptr \<Rightarrow> real \<Rightarrow> ptr \<Rightarrow> heap \<Rightarrow> heap" where
  "operator_add_dv tmp out lhs_val rhs h = operator_add out tmp rhs (make_value tmp lhs_val '''' h)"

definition operator_mul_vd :: "ptr \<Rightarrow> ptr \<Rightarrow> ptr \<Rightarrow> real \<Rightarrow> heap \<Rightarrow> heap" where
  "operator_mul_vd tmp out lhs rhs_val h = operator_mul out lhs tmp (make_value tmp rhs_val '''' h)"

definition operator_mul_dv :: "ptr \<Rightarrow> ptr \<Rightarrow> real \<Rightarrow> ptr \<Rightarrow> heap \<Rightarrow> heap" where
  "operator_mul_dv tmp out lhs_val rhs h = operator_mul out tmp rhs (make_value tmp lhs_val '''' h)"



text \<open>Division is \<^verbatim>\<open>lhs * pow(rhs, -1.0)\<close>; \<open>recip\<close> is the node of the reciprocal.\<close>

definition operator_div :: "ptr \<Rightarrow> ptr \<Rightarrow> ptr \<Rightarrow> ptr \<Rightarrow> heap \<Rightarrow> heap" where
  "operator_div recip out lhs rhs h = operator_mul out lhs recip (pow_value recip rhs (- 1) h)"

definition operator_div_vd :: "ptr \<Rightarrow> ptr \<Rightarrow> ptr \<Rightarrow> ptr \<Rightarrow> real \<Rightarrow> heap \<Rightarrow> heap" where
  "operator_div_vd tmp recip out lhs rhs_val h =
     operator_div recip out lhs tmp (make_value tmp rhs_val '''' h)"

section \<open>Backpropagation\<close>

text \<open>Running a closure: each \<^verbatim>\<open>add_to_grad\<close> reads the heap its predecessor left.\<close>

fun call :: "backward_fn \<Rightarrow> heap \<Rightarrow> heap" where
  "call Noop h = h"
| "call (AddFn lhs rhs out) h =
     (let h1 = add_to_grad lhs (grad h out) h
      in add_to_grad rhs (grad h1 out) h1)"
| "call (MulFn lhs rhs out) h =
     (let h1 = add_to_grad lhs (data h rhs * grad h out) h
      in add_to_grad rhs (data h1 lhs * grad h1 out) h1)"
| "call (TanhFn v t out) h = add_to_grad v ((1 - t * t) * grad h out) h"
| "call (ExpFn v e out) h = add_to_grad v (e * grad h out) h"
| "call (PowFn base exp_val out) h =
     add_to_grad base ((exp_val * std_pow (data h base) (exp_val - 1)) * grad h out) h"

text \<open>
  The recursive lambda \<^verbatim>\<open>build_topo\<close> with the two variables it captures by reference,
  \<^verbatim>\<open>visited\<close> and \<^verbatim>\<open>topo\<close>, passed as state; \<open>build_topo_children\<close> is its \<^verbatim>\<open>for\<close> loop.
\<close>

function build_topo :: "heap \<Rightarrow> ptr \<Rightarrow> ptr set \<times> ptr list \<Rightarrow> ptr set \<times> ptr list"
  and build_topo_children :: "heap \<Rightarrow> ptr list \<Rightarrow> ptr set \<times> ptr list \<Rightarrow> ptr set \<times> ptr list"
  where
  "build_topo h v (visited, topo) =
     (if v \<notin> visited
      then (case build_topo_children h (prev_of h v) (insert v visited, topo) of
              (visited', topo') \<Rightarrow> (visited', topo' @ [v]))
      else (visited, topo))"
| "build_topo_children h [] s = s"
| "build_topo_children h (child # rest) s = build_topo_children h rest (build_topo h child s)"
  by pat_completeness auto

lemma build_topo_visited_mono_dom:
  "build_topo_build_topo_children_dom (Inl (h, v, s)) \<Longrightarrow> fst s \<subseteq> fst (build_topo h v s)"
  "build_topo_build_topo_children_dom (Inr (h, cs, s)) \<Longrightarrow>
     fst s \<subseteq> fst (build_topo_children h cs s)"
proof (induction h v s and h cs s rule: build_topo_build_topo_children.pinduct)
  case (1 h v visited topo)
  then show ?case
    by (auto simp: build_topo.psimps split: prod.splits)
next
  case (2 h s)
  then show ?case by (simp add: build_topo_children.psimps)
next
  case (3 h child rest s)
  then show ?case
    by (simp add: build_topo_children.psimps)
qed

definition operands_in :: "heap \<Rightarrow> ptr set" where
  "operands_in h = (\<Union>p \<in> fmdom' h. set (prev_of h p))"

lemma finite_operands_in: "finite (operands_in h)"
  by (simp add: operands_in_def)

lemma prev_of_operands_in: "set (prev_of h v) \<subseteq> operands_in h"
proof (cases "fmlookup h v")
  case None
  then show ?thesis by (simp add: prev_of_def)
next
  case (Some n)
  then have "v \<in> fmdom' h" by (rule fmdom'I)
  then show ?thesis unfolding operands_in_def by blast
qed

termination build_topo
proof (relation "inv_image (less_than <*lex*> less_than)
    (\<lambda>x. case x of
       Inl (h, v, s) \<Rightarrow> (card (insert v (operands_in h) - fst s), 0)
     | Inr (h, cs, s) \<Rightarrow> (card (operands_in h \<union> set cs - fst s), Suc (length cs)))",
    goal_cases)
  case 1
  then show ?case by (intro wf_inv_image wf_lex_prod wf_less_than)
next
  case (2 h v visited topo)
  have "operands_in h \<union> set (prev_of h v) - insert v visited
          \<subset> insert v (operands_in h) - visited"
    using 2 prev_of_operands_in [of h v] by auto
  then have "card (operands_in h \<union> set (prev_of h v) - insert v visited)
          < card (insert v (operands_in h) - visited)"
    by (intro psubset_card_mono) (simp_all add: finite_operands_in)
  then show ?case by simp
next
  case (3 h child rest s)
  have "card (insert child (operands_in h) - fst s)
          \<le> card (operands_in h \<union> set (child # rest) - fst s)"
    by (intro card_mono) (auto simp: finite_operands_in)
  then show ?case by auto
next
  case (4 h child rest s)
  have "fst s \<subseteq> fst (build_topo h child s)"
    using 4 by (rule build_topo_visited_mono_dom(1))
  then have "card (operands_in h \<union> set rest - fst (build_topo h child s))
          \<le> card (operands_in h \<union> set (child # rest) - fst s)"
    by (intro card_mono) (auto simp: finite_operands_in)
  then show ?case by auto
qed

declare build_topo.simps [simp del]

text \<open>
  \<^verbatim>\<open>Value::backward\<close>. \<open>backward_order\<close> is the content of \<^verbatim>\<open>topo\<close> after
  \<^verbatim>\<open>std::reverse\<close>: the sequence of nodes whose closure the final loop calls.
\<close>

definition backward_order :: "heap \<Rightarrow> ptr \<Rightarrow> ptr list" where
  "backward_order h this = rev (snd (build_topo h this ({}, [])))"

definition call_node :: "heap \<Rightarrow> ptr \<Rightarrow> heap" where
  "call_node h v = (case backward_fn_of h v of None \<Rightarrow> h | Some f \<Rightarrow> call f h)"

definition backward :: "heap \<Rightarrow> ptr \<Rightarrow> heap" where
  "backward h this = foldl call_node (set_grad this 1 h) (backward_order h this)"

section \<open>What backward leaves alone\<close>

text \<open>\<open>grad_only h h'\<close>: the heaps hold the same nodes, equal in every field but \<^verbatim>\<open>m_grad\<close>.\<close>

definition grad_only :: "heap \<Rightarrow> heap \<Rightarrow> bool" where
  "grad_only h h' \<longleftrightarrow>
     (\<forall>p. case fmlookup h p of
            None \<Rightarrow> fmlookup h' p = None
          | Some n \<Rightarrow> (\<exists>g. fmlookup h' p = Some (n\<lparr>m_grad := g\<rparr>)))"

lemma grad_only_refl: "grad_only h h"
proof -
  have "\<exists>g. n = n\<lparr>m_grad := g\<rparr>" for n :: Value
    by (rule exI [of _ "m_grad n"]) simp
  then show ?thesis
    by (simp add: grad_only_def split: option.splits)
qed

lemma grad_only_lookup:
  "grad_only h h' \<Longrightarrow> fmlookup h p = Some n \<Longrightarrow> \<exists>g. fmlookup h' p = Some (n\<lparr>m_grad := g\<rparr>)"
  by (auto simp: grad_only_def split: option.splits dest: spec [of _ p])

lemma grad_only_lookup_None:
  "grad_only h h' \<Longrightarrow> fmlookup h p = None \<Longrightarrow> fmlookup h' p = None"
  by (auto simp: grad_only_def split: option.splits dest: spec [of _ p])

lemma grad_only_trans:
  assumes "grad_only h1 h2" and "grad_only h2 h3"
  shows "grad_only h1 h3"
  unfolding grad_only_def
proof
  fix p
  show "case fmlookup h1 p of None \<Rightarrow> fmlookup h3 p = None
        | Some n \<Rightarrow> \<exists>g. fmlookup h3 p = Some (n\<lparr>m_grad := g\<rparr>)"
  proof (cases "fmlookup h1 p")
    case None
    then have "fmlookup h2 p = None"
      using assms(1) by (simp add: grad_only_lookup_None)
    then have "fmlookup h3 p = None"
      using assms(2) by (simp add: grad_only_lookup_None)
    with None show ?thesis by simp
  next
    case (Some n)
    then obtain g where g: "fmlookup h2 p = Some (n\<lparr>m_grad := g\<rparr>)"
      using assms(1) grad_only_lookup by blast
    obtain g' where "fmlookup h3 p = Some (n\<lparr>m_grad := g, m_grad := g'\<rparr>)"
      using grad_only_lookup [OF assms(2) g] by blast
    with Some show ?thesis by auto
  qed
qed

lemma grad_only_modify:
  assumes "\<And>n. \<exists>g. f n = n\<lparr>m_grad := g\<rparr>"
  shows "grad_only h (modify p f h)"
proof -
  have self: "\<exists>g. n = n\<lparr>m_grad := g\<rparr>" for n :: Value
    by (rule exI [of _ "m_grad n"]) simp
  show ?thesis
    using assms self by (auto simp: grad_only_def modify_def split: option.splits)
qed

lemma grad_only_set_grad: "grad_only h (set_grad p g h)"
  unfolding set_grad_def by (rule grad_only_modify) blast

lemma grad_only_add_to_grad: "grad_only h (add_to_grad p d h)"
  unfolding add_to_grad_def by (rule grad_only_modify) blast

lemma grad_only_zero_grad: "grad_only h (zero_grad p h)"
  unfolding zero_grad_def by (rule grad_only_modify) blast

lemma grad_only_call: "grad_only h (call f h)"
  by (cases f)
    (auto simp: Let_def grad_only_refl intro: grad_only_add_to_grad grad_only_trans)

lemma grad_only_call_node: "grad_only h (call_node h v)"
  by (simp add: call_node_def grad_only_refl grad_only_call split: option.splits)

lemma grad_only_foldl_call_node: "grad_only h (foldl call_node h vs)"
proof (induction vs arbitrary: h)
  case Nil
  show ?case by (simp add: grad_only_refl)
next
  case (Cons v vs)
  show ?case
    using grad_only_call_node [of h v] Cons [of "call_node h v"]
    by (auto intro: grad_only_trans)
qed

lemma grad_only_backward: "grad_only h (backward h this)"
  unfolding backward_def
  by (rule grad_only_trans [OF grad_only_set_grad grad_only_foldl_call_node])

lemma grad_only_fmdom': "grad_only h h' \<Longrightarrow> fmdom' h' = fmdom' h"
proof (rule set_eqI)
  fix p
  assume "grad_only h h'"
  then show "p \<in> fmdom' h' \<longleftrightarrow> p \<in> fmdom' h"
    by (cases "fmlookup h p")
      (auto simp: fmlookup_dom'_iff dest: grad_only_lookup grad_only_lookup_None)
qed

lemma grad_only_prev_of: "grad_only h h' \<Longrightarrow> prev_of h' p = prev_of h p"
  by (cases "fmlookup h p")
    (auto simp: prev_of_def dest: grad_only_lookup grad_only_lookup_None)

lemma grad_only_backward_fn_of: "grad_only h h' \<Longrightarrow> backward_fn_of h' p = backward_fn_of h p"
  by (cases "fmlookup h p")
    (auto simp: backward_fn_of_def dest: grad_only_lookup grad_only_lookup_None)

lemma grad_only_data: "grad_only h h' \<Longrightarrow> data h' p = data h p"
  by (cases "fmlookup h p")
    (auto simp: data_def dest: grad_only_lookup grad_only_lookup_None)

section \<open>Heaps built by the operator layer\<close>

text \<open>The nodes whose \<^verbatim>\<open>m_grad\<close> a closure writes.\<close>

fun targets :: "backward_fn \<Rightarrow> ptr set" where
  "targets Noop = {}"
| "targets (AddFn lhs rhs out) = {lhs, rhs}"
| "targets (MulFn lhs rhs out) = {lhs, rhs}"
| "targets (TanhFn v t out) = {v}"
| "targets (ExpFn v e out) = {v}"
| "targets (PowFn base exp_val out) = {base}"

text \<open>
  The heaps a client can reach through the public interface: node creation, the five
  operations that allocate a node with a closure, the mutators and \<^verbatim>\<open>backward\<close>. The
  derived operations (negation, subtraction, division, the scalar overloads) are
  compositions of these. A new node gets an address that is not in use, and operands are
  pointers to live nodes. Copying or moving a \<^verbatim>\<open>Value\<close> object onto another is not part of
  it.
\<close>

inductive built :: "heap \<Rightarrow> bool" where
  built_empty: "built fmempty"
| built_make_value: "built h \<Longrightarrow> p \<notin> fmdom' h \<Longrightarrow> built (make_value p d l h)"
| built_add: "built h \<Longrightarrow> out \<notin> fmdom' h \<Longrightarrow> lhs \<in> fmdom' h \<Longrightarrow> rhs \<in> fmdom' h \<Longrightarrow>
     built (operator_add out lhs rhs h)"
| built_mul: "built h \<Longrightarrow> out \<notin> fmdom' h \<Longrightarrow> lhs \<in> fmdom' h \<Longrightarrow> rhs \<in> fmdom' h \<Longrightarrow>
     built (operator_mul out lhs rhs h)"
| built_tanh: "built h \<Longrightarrow> out \<notin> fmdom' h \<Longrightarrow> v \<in> fmdom' h \<Longrightarrow> built (tanh_value out v h)"
| built_exp: "built h \<Longrightarrow> out \<notin> fmdom' h \<Longrightarrow> v \<in> fmdom' h \<Longrightarrow> built (exp_value out v h)"
| built_pow: "built h \<Longrightarrow> out \<notin> fmdom' h \<Longrightarrow> base \<in> fmdom' h \<Longrightarrow>
     built (pow_value out base exp_val h)"
| built_set_data: "built h \<Longrightarrow> built (set_data p d h)"
| built_set_grad: "built h \<Longrightarrow> built (set_grad p g h)"
| built_add_to_grad: "built h \<Longrightarrow> built (add_to_grad p d h)"
| built_zero_grad: "built h \<Longrightarrow> built (zero_grad p h)"
| built_set_label: "built h \<Longrightarrow> built (set_label p l h)"
| built_backward: "built h \<Longrightarrow> this \<in> fmdom' h \<Longrightarrow> built (backward h this)"

text \<open>
  The invariant of built heaps: operands are live, every node has a closure and the
  closure writes only to operands of its node, and the operand relation is acyclic
  (\<open>rank\<close> is smaller on an operand than on its consumer).
\<close>

definition node_ok :: "heap \<Rightarrow> Value \<Rightarrow> bool" where
  "node_ok h n \<longleftrightarrow>
     set (m_prev n) \<subseteq> fmdom' h \<and>
     (\<exists>f. m_backward_fn n = Some f \<and> targets f \<subseteq> set (m_prev n))"

definition ranked :: "heap \<Rightarrow> (ptr \<Rightarrow> nat) \<Rightarrow> bool" where
  "ranked h rank \<longleftrightarrow> (\<forall>p c. c \<in> set (prev_of h p) \<longrightarrow> rank c < rank p)"

definition wf_heap :: "heap \<Rightarrow> bool" where
  "wf_heap h \<longleftrightarrow> (\<forall>p n. fmlookup h p = Some n \<longrightarrow> node_ok h n) \<and> (\<exists>rank. ranked h rank)"

text \<open>\<open>reachable h this v\<close>: \<open>v\<close> is reachable from \<open>this\<close> via the operand relation.\<close>

inductive reachable :: "heap \<Rightarrow> ptr \<Rightarrow> ptr \<Rightarrow> bool" for h :: heap and this :: ptr where
  reachable_root: "reachable h this this"
| reachable_operand: "reachable h this u \<Longrightarrow> v \<in> set (prev_of h u) \<Longrightarrow> reachable h this v"

text \<open>
  \<open>operands_later h order\<close>: in the sequence \<open>order\<close>, the operands of every node come
  after the node.
\<close>

fun operands_later :: "heap \<Rightarrow> ptr list \<Rightarrow> bool" where
  "operands_later h [] \<longleftrightarrow> True"
| "operands_later h (v # rest) \<longleftrightarrow> set (prev_of h v) \<subseteq> set rest \<and> operands_later h rest"

subsection \<open>Built heaps are well-formed\<close>

lemma set_std_set: "set (std_set xs) = set xs"
proof -
  have "set (foldl (\<lambda>s x. std_set_insert x s) acc xs) = set acc \<union> set xs" for acc
    by (induction xs arbitrary: acc) (auto simp: std_set_insert_def set_insort_key)
  then show ?thesis by (simp add: std_set_def)
qed

lemma alloc_with_closure:
  "set_backward_fn out f (make_value_op out d children op l h) =
     fmupd out ((Value_op d children op l)\<lparr>m_backward_fn := Some f\<rparr>) h"
  by (simp add: set_backward_fn_def make_value_op_def modify_def)

lemma prev_of_fmupd:
  "prev_of (fmupd q n h) p = (if p = q then m_prev n else prev_of h p)"
  by (simp add: prev_of_def)

lemma node_ok_mono: "node_ok h n \<Longrightarrow> fmdom' h \<subseteq> fmdom' h' \<Longrightarrow> node_ok h' n"
  by (auto simp: node_ok_def)

lemma wf_heap_alloc:
  assumes wf: "wf_heap h" and fresh: "q \<notin> fmdom' h" and ok: "node_ok h n"
  shows "wf_heap (fmupd q n h)"
proof -
  from wf obtain rank where rank: "ranked h rank"
    by (auto simp: wf_heap_def)
  define top where "top = Suc (Max (insert 0 (rank ` set (m_prev n))))"
  define rank' where "rank' = rank(q := top)"
  have q_no_operand: "q \<notin> set (prev_of h p)" for p
  proof (cases "fmlookup h p")
    case None
    then show ?thesis by (simp add: prev_of_def)
  next
    case (Some m)
    with wf have "set (m_prev m) \<subseteq> fmdom' h"
      by (auto simp: wf_heap_def node_ok_def)
    with fresh Some show ?thesis by (auto simp: prev_of_def)
  qed
  have q_new: "q \<notin> set (m_prev n)"
    using ok fresh by (auto simp: node_ok_def)
  have below: "rank c < top" if "c \<in> set (m_prev n)" for c
  proof -
    have "rank c \<le> Max (insert 0 (rank ` set (m_prev n)))"
      using that by (intro Max_ge) auto
    then show ?thesis by (simp add: top_def)
  qed
  have "ranked (fmupd q n h) rank'"
    unfolding ranked_def
  proof (intro allI impI)
    fix p c
    assume c: "c \<in> set (prev_of (fmupd q n h) p)"
    show "rank' c < rank' p"
    proof (cases "p = q")
      case True
      with c have "c \<in> set (m_prev n)" by (simp add: prev_of_fmupd)
      with q_new below True show ?thesis by (auto simp: rank'_def)
    next
      case False
      with c have c': "c \<in> set (prev_of h p)" by (simp add: prev_of_fmupd)
      with q_no_operand have "c \<noteq> q" by auto
      with False c' rank show ?thesis by (simp add: rank'_def ranked_def)
    qed
  qed
  moreover have "node_ok (fmupd q n h) m" if "fmlookup (fmupd q n h) p = Some m" for p m
  proof (cases "p = q")
    case True
    with that ok show ?thesis by (auto intro: node_ok_mono)
  next
    case False
    with that wf have "node_ok h m" by (auto simp: wf_heap_def)
    then show ?thesis by (rule node_ok_mono) auto
  qed
  ultimately show ?thesis
    unfolding wf_heap_def by blast
qed

lemma wf_heap_modify:
  assumes wf: "wf_heap h"
    and keep: "\<And>n. m_prev (f n) = m_prev n \<and> m_backward_fn (f n) = m_backward_fn n"
  shows "wf_heap (modify p f h)"
proof (cases "fmlookup h p")
  case None
  with wf show ?thesis by (simp add: modify_def)
next
  case (Some n)
  have dom: "fmdom' (modify p f h) = fmdom' h"
    using Some by (auto simp: modify_def dest: fmdom'I)
  have prev: "prev_of (modify p f h) x = prev_of h x" for x
    using Some keep by (auto simp: modify_def prev_of_def)
  have "node_ok (modify p f h) m" if "fmlookup (modify p f h) x = Some m" for x m
  proof (cases "x = p")
    case True
    with that Some have m: "m = f n" by (simp add: modify_def)
    from wf Some have "node_ok h n" by (auto simp: wf_heap_def)
    with keep [of n] show ?thesis by (simp add: node_ok_def m dom)
  next
    case False
    with that Some have "fmlookup h x = Some m" by (simp add: modify_def)
    with wf have "node_ok h m" by (auto simp: wf_heap_def)
    then show ?thesis by (simp add: node_ok_def dom)
  qed
  moreover have "\<exists>rank. ranked (modify p f h) rank"
    using wf by (simp add: wf_heap_def ranked_def prev)
  ultimately show ?thesis
    unfolding wf_heap_def by blast
qed

lemma wf_heap_grad_only:
  assumes wf: "wf_heap h" and g: "grad_only h h'"
  shows "wf_heap h'"
proof -
  have "node_ok h' m" if "fmlookup h' p = Some m" for p m
  proof (cases "fmlookup h p")
    case None
    with g that show ?thesis by (simp add: grad_only_lookup_None)
  next
    case (Some n)
    with g that obtain x where "m = n\<lparr>m_grad := x\<rparr>"
      using grad_only_lookup by fastforce
    moreover from wf Some have "node_ok h n" by (auto simp: wf_heap_def)
    ultimately show ?thesis
      by (simp add: node_ok_def grad_only_fmdom' [OF g])
  qed
  moreover have "\<exists>rank. ranked h' rank"
    using wf by (simp add: wf_heap_def ranked_def grad_only_prev_of [OF g])
  ultimately show ?thesis
    unfolding wf_heap_def by blast
qed

lemma wf_heap_empty: "wf_heap fmempty"
  by (simp add: wf_heap_def ranked_def prev_of_def)

lemma wf_heap_make_value:
  "wf_heap h \<Longrightarrow> p \<notin> fmdom' h \<Longrightarrow> wf_heap (make_value p d l h)"
  unfolding make_value_def
  by (rule wf_heap_alloc) (simp_all add: node_ok_def Value_leaf_def)

lemma wf_heap_operator_add:
  "wf_heap h \<Longrightarrow> out \<notin> fmdom' h \<Longrightarrow> lhs \<in> fmdom' h \<Longrightarrow> rhs \<in> fmdom' h \<Longrightarrow>
   wf_heap (operator_add out lhs rhs h)"
  unfolding operator_add_def alloc_with_closure
  by (rule wf_heap_alloc) (simp_all add: node_ok_def Value_op_def set_std_set)

lemma wf_heap_operator_mul:
  "wf_heap h \<Longrightarrow> out \<notin> fmdom' h \<Longrightarrow> lhs \<in> fmdom' h \<Longrightarrow> rhs \<in> fmdom' h \<Longrightarrow>
   wf_heap (operator_mul out lhs rhs h)"
  unfolding operator_mul_def alloc_with_closure
  by (rule wf_heap_alloc) (simp_all add: node_ok_def Value_op_def set_std_set)

lemma wf_heap_tanh_value:
  "wf_heap h \<Longrightarrow> out \<notin> fmdom' h \<Longrightarrow> v \<in> fmdom' h \<Longrightarrow> wf_heap (tanh_value out v h)"
  unfolding tanh_value_def Let_def alloc_with_closure
  by (rule wf_heap_alloc) (simp_all add: node_ok_def Value_op_def set_std_set)

lemma wf_heap_exp_value:
  "wf_heap h \<Longrightarrow> out \<notin> fmdom' h \<Longrightarrow> v \<in> fmdom' h \<Longrightarrow> wf_heap (exp_value out v h)"
  unfolding exp_value_def Let_def alloc_with_closure
  by (rule wf_heap_alloc) (simp_all add: node_ok_def Value_op_def set_std_set)

lemma wf_heap_pow_value:
  "wf_heap h \<Longrightarrow> out \<notin> fmdom' h \<Longrightarrow> base \<in> fmdom' h \<Longrightarrow>
   wf_heap (pow_value out base exp_val h)"
  unfolding pow_value_def Let_def alloc_with_closure
  by (rule wf_heap_alloc) (simp_all add: node_ok_def Value_op_def set_std_set)

lemma built_wf_heap: "built h \<Longrightarrow> wf_heap h"
proof (induction rule: built.induct)
  case built_empty
  show ?case by (rule wf_heap_empty)
next
  case (built_make_value h p d l)
  then show ?case by (simp add: wf_heap_make_value)
next
  case (built_add h out lhs rhs)
  then show ?case by (simp add: wf_heap_operator_add)
next
  case (built_mul h out lhs rhs)
  then show ?case by (simp add: wf_heap_operator_mul)
next
  case (built_tanh h out v)
  then show ?case by (simp add: wf_heap_tanh_value)
next
  case (built_exp h out v)
  then show ?case by (simp add: wf_heap_exp_value)
next
  case (built_pow h out base exp_val)
  then show ?case by (simp add: wf_heap_pow_value)
next
  case (built_set_data h p d)
  then show ?case unfolding set_data_def by (intro wf_heap_modify) simp_all
next
  case (built_set_grad h p g)
  then show ?case unfolding set_grad_def by (intro wf_heap_modify) simp_all
next
  case (built_add_to_grad h p d)
  then show ?case unfolding add_to_grad_def by (intro wf_heap_modify) simp_all
next
  case (built_zero_grad h p)
  then show ?case unfolding zero_grad_def by (intro wf_heap_modify) simp_all
next
  case (built_set_label h p l)
  then show ?case unfolding set_label_def by (intro wf_heap_modify) simp_all
next
  case (built_backward h this)
  then show ?case by (auto intro: wf_heap_grad_only grad_only_backward)
qed

subsection \<open>The order built by the traversal\<close>

lemma reachable_trans:
  "reachable h b x \<Longrightarrow> reachable h a b \<Longrightarrow> reachable h a x"
  by (induction rule: reachable.induct) (auto intro: reachable_operand)

lemma reachable_via_operand:
  "c \<in> set (prev_of h v) \<Longrightarrow> reachable h c x \<Longrightarrow> reachable h v x"
  by (rule reachable_trans [where b = c]) (auto intro: reachable.intros)

lemma reachable_rank:
  "reachable h a x \<Longrightarrow> ranked h rank \<Longrightarrow> rank x \<le> rank a"
proof (induction rule: reachable.induct)
  case reachable_root
  show ?case by simp
next
  case (reachable_operand u v)
  then have "rank v < rank u" by (simp add: ranked_def)
  with reachable_operand show ?case by simp
qed

lemma operands_later_closed:
  "operands_later h order \<Longrightarrow> v \<in> set order \<Longrightarrow> set (prev_of h v) \<subseteq> set order"
  by (induction order) auto

lemma operands_later_split:
  "operands_later h (xs @ v # ys) \<Longrightarrow> set (prev_of h v) \<subseteq> set ys"
  by (induction xs) auto

text \<open>
  The state of the traversal. Visited nodes that are not yet in \<open>topo\<close> are the callers on
  the recursion stack; in a ranked heap each of them has a rank above the nodes \<open>srcs\<close>
  that are about to be visited.
\<close>

definition dfs_pre :: "heap \<Rightarrow> (ptr \<Rightarrow> nat) \<Rightarrow> ptr set \<Rightarrow> ptr set \<times> ptr list \<Rightarrow> bool" where
  "dfs_pre h rank srcs s \<longleftrightarrow>
     set (snd s) \<subseteq> fst s \<and> distinct (snd s) \<and> operands_later h (rev (snd s)) \<and>
     (\<forall>g \<in> fst s - set (snd s). \<forall>c \<in> srcs. rank c < rank g)"

definition dfs_post :: "heap \<Rightarrow> ptr set \<Rightarrow> ptr set \<times> ptr list \<Rightarrow> ptr set \<times> ptr list \<Rightarrow> bool" where
  "dfs_post h srcs s s' \<longleftrightarrow>
     (\<exists>new. snd s' = snd s @ new \<and> fst s' = fst s \<union> set new \<and> set new \<inter> fst s = {} \<and>
        distinct new \<and> operands_later h (rev (snd s')) \<and> srcs \<subseteq> set (snd s') \<and>
        (\<forall>x \<in> set new. \<exists>c \<in> srcs. reachable h c x))"

lemma dfs_pre_subset: "dfs_pre h rank srcs s \<Longrightarrow> srcs' \<subseteq> srcs \<Longrightarrow> dfs_pre h rank srcs' s"
  unfolding dfs_pre_def by blast

lemma dfs_post_pre:
  assumes "dfs_pre h rank srcs' s" and "dfs_post h srcs s s'"
  shows "dfs_pre h rank srcs' s'"
proof -
  from assms(2) obtain new where new: "snd s' = snd s @ new" "fst s' = fst s \<union> set new"
    "set new \<inter> fst s = {}" "distinct new" "operands_later h (rev (snd s'))"
    unfolding dfs_post_def by blast
  from assms(1) have pre: "set (snd s) \<subseteq> fst s" "distinct (snd s)"
    "\<forall>g \<in> fst s - set (snd s). \<forall>c \<in> srcs'. rank c < rank g"
    unfolding dfs_pre_def by blast+
  have "fst s' - set (snd s') = fst s - set (snd s)"
    using new(1-3) pre(1) by auto
  moreover have "distinct (snd s')"
    using new(1,3,4) pre(1,2) by auto
  moreover have "set (snd s') \<subseteq> fst s'"
    using new(1,2) pre(1) by auto
  ultimately show ?thesis
    using new(5) pre(3) unfolding dfs_pre_def by simp
qed

lemma dfs_post_visited:
  assumes pre: "dfs_pre h rank {v} (visited, topo)" and v: "v \<in> visited"
  shows "dfs_post h {v} (visited, topo) (visited, topo)"
proof -
  have "v \<in> set topo"
  proof (rule ccontr)
    assume "v \<notin> set topo"
    with v pre have "rank v < rank v" by (auto simp: dfs_pre_def)
    then show False by simp
  qed
  with pre show ?thesis by (simp add: dfs_post_def dfs_pre_def)
qed

lemma dfs_pre_enter:
  assumes r: "ranked h rank" and pre: "dfs_pre h rank {v} (visited, topo)"
  shows "dfs_pre h rank (set (prev_of h v)) (insert v visited, topo)"
proof -
  have "rank c < rank g"
    if "g \<in> insert v visited - set topo" and "c \<in> set (prev_of h v)" for g c
  proof -
    from r that(2) have cv: "rank c < rank v" by (simp add: ranked_def)
    show ?thesis
    proof (cases "g = v")
      case True
      with cv show ?thesis by simp
    next
      case False
      with that(1) pre have "rank v < rank g" by (auto simp: dfs_pre_def)
      with cv show ?thesis by simp
    qed
  qed
  with pre show ?thesis by (auto simp: dfs_pre_def)
qed

lemma dfs_post_leave:
  assumes v: "v \<notin> visited"
    and post: "dfs_post h (set (prev_of h v)) (insert v visited, topo) (visited', topo')"
  shows "dfs_post h {v} (visited, topo) (visited', topo' @ [v])"
proof -
  from post obtain new where new: "topo' = topo @ new" "visited' = insert v visited \<union> set new"
    "set new \<inter> insert v visited = {}" "distinct new" "operands_later h (rev topo')"
    "set (prev_of h v) \<subseteq> set topo'"
    "\<forall>x \<in> set new. \<exists>c \<in> set (prev_of h v). reachable h c x"
    unfolding dfs_post_def by auto
  have reach: "\<exists>c \<in> {v}. reachable h c x" if "x \<in> set (new @ [v])" for x
  proof (cases "x = v")
    case True
    then show ?thesis by (simp add: reachable_root)
  next
    case False
    with that new(7) obtain c where "c \<in> set (prev_of h v)" "reachable h c x" by auto
    then show ?thesis by (simp add: reachable_via_operand)
  qed
  have "topo' @ [v] = topo @ (new @ [v])" using new(1) by simp
  moreover have "visited' = visited \<union> set (new @ [v])" using new(2) by auto
  moreover have "set (new @ [v]) \<inter> visited = {}" using new(3) v by auto
  moreover have "distinct (new @ [v])" using new(3,4) by auto
  moreover have "operands_later h (rev (topo' @ [v]))" using new(5,6) by simp
  ultimately show ?thesis
    unfolding dfs_post_def using reach by (intro exI [of _ "new @ [v]"]) simp
qed

lemma dfs_post_seq:
  assumes p1: "dfs_post h {c} s s1" and p2: "dfs_post h (set cs) s1 s2"
  shows "dfs_post h (set (c # cs)) s s2"
proof -
  from p1 obtain n1 where n1: "snd s1 = snd s @ n1" "fst s1 = fst s \<union> set n1"
    "set n1 \<inter> fst s = {}" "distinct n1" "c \<in> set (snd s1)" "\<forall>x \<in> set n1. reachable h c x"
    unfolding dfs_post_def by auto
  from p2 obtain n2 where n2: "snd s2 = snd s1 @ n2" "fst s2 = fst s1 \<union> set n2"
    "set n2 \<inter> fst s1 = {}" "distinct n2" "operands_later h (rev (snd s2))"
    "set cs \<subseteq> set (snd s2)" "\<forall>x \<in> set n2. \<exists>d \<in> set cs. reachable h d x"
    unfolding dfs_post_def by auto
  have "snd s2 = snd s @ (n1 @ n2)" using n1(1) n2(1) by simp
  moreover have "fst s2 = fst s \<union> set (n1 @ n2)" using n1(2) n2(2) by auto
  moreover have "set (n1 @ n2) \<inter> fst s = {}" using n1(2,3) n2(3) by auto
  moreover have "distinct (n1 @ n2)" using n1(2,4) n2(3,4) by auto
  moreover have "set (c # cs) \<subseteq> set (snd s2)" using n1(5) n2(1,6) by auto
  moreover have "\<forall>x \<in> set (n1 @ n2). \<exists>d \<in> set (c # cs). reachable h d x"
    using n1(6) n2(7) by auto
  ultimately show ?thesis
    unfolding dfs_post_def using n2(5) by blast
qed

lemma build_topo_post:
  "ranked h rank \<Longrightarrow> dfs_pre h rank {v} s \<Longrightarrow> dfs_post h {v} s (build_topo h v s)"
  "ranked h rank \<Longrightarrow> dfs_pre h rank (set cs) s \<Longrightarrow>
     dfs_post h (set cs) s (build_topo_children h cs s)"
proof (induction h v s and h cs s rule: build_topo_build_topo_children.induct)
  case (1 h v visited topo)
  show ?case
  proof (cases "v \<in> visited")
    case True
    with 1(3) show ?thesis
      by (simp add: build_topo.simps dfs_post_visited)
  next
    case False
    obtain visited' topo' where
      res: "build_topo_children h (prev_of h v) (insert v visited, topo) = (visited', topo')"
      by (cases "build_topo_children h (prev_of h v) (insert v visited, topo)")
    have "dfs_post h (set (prev_of h v)) (insert v visited, topo) (visited', topo')"
      using 1(1) [OF False 1(2) dfs_pre_enter [OF 1(2,3)]] res by simp
    with False have "dfs_post h {v} (visited, topo) (visited', topo' @ [v])"
      by (rule dfs_post_leave)
    with False res show ?thesis
      by (simp add: build_topo.simps)
  qed
next
  case (2 h s)
  then show ?case
    by (simp add: dfs_post_def dfs_pre_def)
next
  case (3 h child rest s)
  have pre_child: "dfs_pre h rank {child} s"
    using 3(4) by (rule dfs_pre_subset) simp
  have post_child: "dfs_post h {child} s (build_topo h child s)"
    using 3(1) [OF 3(3) pre_child] .
  have "dfs_pre h rank (set rest) s"
    using 3(4) by (rule dfs_pre_subset) auto
  then have "dfs_pre h rank (set rest) (build_topo h child s)"
    using post_child by (rule dfs_post_pre)
  then have "dfs_post h (set rest) (build_topo h child s)
      (build_topo_children h rest (build_topo h child s))"
    using 3(2) [OF 3(3)] by simp
  with post_child show ?case
    by (simp add: dfs_post_seq del: set_simps)
qed

lemma backward_order_post:
  assumes "ranked h rank"
  shows "distinct (backward_order h this)"
    and "operands_later h (backward_order h this)"
    and "set (backward_order h this) = {v. reachable h this v}"
proof -
  have "dfs_pre h rank {this} ({}, [])"
    by (simp add: dfs_pre_def)
  with assms have "dfs_post h {this} ({}, []) (build_topo h this ({}, []))"
    by (rule build_topo_post(1))
  then obtain new where new: "snd (build_topo h this ({}, [])) = new" "distinct new"
    "operands_later h (rev new)" "this \<in> set new" "\<forall>x \<in> set new. reachable h this x"
    unfolding dfs_post_def by auto
  have order: "backward_order h this = rev new"
    by (simp add: backward_order_def new(1))
  show "distinct (backward_order h this)"
    by (simp add: order new(2))
  show later: "operands_later h (backward_order h this)"
    by (simp add: order new(3))
  have "v \<in> set (backward_order h this)" if "reachable h this v" for v
    using that
  proof (induction rule: reachable.induct)
    case reachable_root
    show ?case by (simp add: order new(4))
  next
    case (reachable_operand u v)
    with operands_later_closed [OF later] show ?case by blast
  qed
  then show "set (backward_order h this) = {v. reachable h this v}"
    using new(5) by (auto simp: order)
qed

lemma distinct_split_unique:
  assumes "distinct (xs @ v # ys)" and "xs @ v # ys = xs' @ v # ys'"
  shows "xs = xs'"
proof -
  have pre: "takeWhile (\<lambda>x. x \<noteq> v) (as @ v # bs) = as" if "v \<notin> set as" for as bs
    using that by (induction as) auto
  from assms(1) have "v \<notin> set xs" by simp
  moreover from assms(1) have "distinct (xs' @ v # ys')" unfolding assms(2) .
  then have "v \<notin> set xs'" by simp
  ultimately have "takeWhile (\<lambda>x. x \<noteq> v) (xs @ v # ys) = xs"
    and "takeWhile (\<lambda>x. x \<noteq> v) (xs' @ v # ys') = xs'"
    by (simp_all add: pre)
  with assms(2) show ?thesis by simp
qed

lemma consumer_before_operand:
  assumes d: "distinct order" and l: "operands_later h order"
    and split: "order = xs @ v # ys" and u: "u \<in> set order" and op: "v \<in> set (prev_of h u)"
  shows "u \<in> set xs"
proof -
  from u obtain as bs where ab: "order = as @ u # bs"
    by (auto simp: in_set_conv_decomp)
  with l have "set (prev_of h u) \<subseteq> set bs"
    by (simp add: operands_later_split)
  with op obtain cs ds where cd: "bs = cs @ v # ds"
    by (auto simp: in_set_conv_decomp)
  have "xs @ v # ys = (as @ u # cs) @ v # ds"
    using split ab cd by simp
  moreover have "distinct (xs @ v # ys)"
    using d split by simp
  ultimately have "xs = as @ u # cs"
    by (rule distinct_split_unique [rotated])
  then show ?thesis by simp
qed

lemma reachable_live:
  "reachable h this v \<Longrightarrow> wf_heap h \<Longrightarrow> this \<in> fmdom' h \<Longrightarrow> v \<in> fmdom' h"
proof (induction rule: reachable.induct)
  case reachable_root
  then show ?case by simp
next
  case (reachable_operand u v)
  then have "u \<in> fmdom' h" by simp
  then obtain n where n: "fmlookup h u = Some n"
    by (auto simp: fmlookup_dom'_iff)
  with reachable_operand.prems(1) have "node_ok h n"
    unfolding wf_heap_def by blast
  with n reachable_operand.hyps(2) show ?case
    by (auto simp: node_ok_def prev_of_def)
qed

lemma live_node_has_closure:
  assumes "wf_heap h" and "v \<in> fmdom' h"
  shows "\<exists>f. backward_fn_of h v = Some f"
proof -
  from assms(2) obtain n where n: "fmlookup h v = Some n"
    by (auto simp: fmlookup_dom'_iff)
  with assms(1) have "node_ok h n"
    unfolding wf_heap_def by blast
  with n show ?thesis
    by (auto simp: node_ok_def backward_fn_of_def)
qed

subsection \<open>Gradients written by the closures\<close>

lemma grad_modify:
  "grad (modify p f h) v =
     (if v = p then (case fmlookup h p of None \<Rightarrow> 0 | Some n \<Rightarrow> m_grad (f n)) else grad h v)"
  by (cases "fmlookup h p") (simp_all add: grad_def modify_def)

lemma grad_add_to_grad:
  "grad (add_to_grad p d h) v = (if v = p \<and> p \<in> fmdom' h then grad h v + d else grad h v)"
  unfolding add_to_grad_def grad_modify
  by (auto simp: grad_def fmlookup_dom'_iff split: option.splits)

lemma grad_set_grad:
  "grad (set_grad p g h) v = (if v = p \<and> p \<in> fmdom' h then g else grad h v)"
  unfolding set_grad_def grad_modify
  by (auto simp: grad_def fmlookup_dom'_iff split: option.splits)


lemma data_add_to_grad: "data (add_to_grad p d h) v = data h v"
  by (rule grad_only_data [OF grad_only_add_to_grad])

lemma data_set_grad: "data (set_grad p g h) v = data h v"
  by (rule grad_only_data [OF grad_only_set_grad])

lemma fmdom'_add_to_grad: "fmdom' (add_to_grad p d h) = fmdom' h"
  by (rule grad_only_fmdom' [OF grad_only_add_to_grad])

lemma fmdom'_set_grad: "fmdom' (set_grad p g h) = fmdom' h"
  by (rule grad_only_fmdom' [OF grad_only_set_grad])

lemma grad_call_other: "v \<notin> targets f \<Longrightarrow> grad (call f h) v = grad h v"
  by (cases f) (simp_all add: Let_def grad_add_to_grad)

lemma grad_call_node_other:
  assumes "wf_heap h" and "v \<notin> set (prev_of h u)"
  shows "grad (call_node h u) v = grad h v"
proof (cases "fmlookup h u")
  case None
  then show ?thesis by (simp add: call_node_def backward_fn_of_def)
next
  case (Some n)
  with assms(1) have "node_ok h n"
    unfolding wf_heap_def by blast
  then obtain f where f: "m_backward_fn n = Some f" "targets f \<subseteq> set (m_prev n)"
    unfolding node_ok_def by blast
  with assms(2) Some have "v \<notin> targets f"
    by (auto simp: prev_of_def)
  with Some f(1) show ?thesis
    by (simp add: call_node_def backward_fn_of_def grad_call_other)
qed

lemma grad_foldl_call_node_other:
  "wf_heap h \<Longrightarrow> \<forall>u \<in> set us. v \<notin> set (prev_of h u) \<Longrightarrow>
   grad (foldl call_node h us) v = grad h v"
proof (induction us arbitrary: h)
  case Nil
  show ?case by simp
next
  case (Cons u us)
  note g = grad_only_call_node [of h u]
  have "wf_heap (call_node h u)"
    using Cons.prems(1) g by (rule wf_heap_grad_only)
  moreover have "\<forall>w \<in> set us. v \<notin> set (prev_of (call_node h u) w)"
    using Cons.prems(2) by (simp add: grad_only_prev_of [OF g])
  ultimately have "grad (foldl call_node (call_node h u) us) v = grad (call_node h u) v"
    by (rule Cons.IH)
  also have "\<dots> = grad h v"
    using Cons.prems by (simp add: grad_call_node_other)
  finally show ?case by simp
qed

lemma backward_order_Cons:
  "backward_order h this =
     this # rev (snd (build_topo_children h (prev_of h this) ({this}, [])))"
  by (simp add: backward_order_def build_topo.simps split: prod.splits)

lemma reachable_cases:
  "reachable h a u \<Longrightarrow> u = a \<or> (\<exists>c \<in> set (prev_of h a). reachable h c u)"
proof (induction rule: reachable.induct)
  case reachable_root
  show ?case by simp
next
  case (reachable_operand u v)
  then show ?case
    by (auto intro: reachable.intros)
qed

lemma not_operand_of_descendant:
  assumes "ranked h rank" and "reachable h a u"
  shows "a \<notin> set (prev_of h u)"
proof
  assume "a \<in> set (prev_of h u)"
  with assms(1) have "rank a < rank u" by (simp add: ranked_def)
  moreover from assms(2,1) have "rank u \<le> rank a" by (rule reachable_rank)
  ultimately show False by simp
qed

text \<open>
  After \<open>this\<close> has run its closure, the gradient of a node \<open>a\<close> that is the only operand
  of \<open>this\<close> does not change any more: the rest of the order descends from \<open>a\<close>.
\<close>

lemma grad_backward_sole_operand:
  assumes wf: "wf_heap h" and only: "set (prev_of h this) = {a}"
  shows "grad (backward h this) a = grad (call_node (set_grad this 1 h) this) a"
proof -
  from wf obtain rank where rank: "ranked h rank"
    by (auto simp: wf_heap_def)
  define rest where "rest = rev (snd (build_topo_children h (prev_of h this) ({this}, [])))"
  have order: "backward_order h this = this # rest"
    by (simp add: rest_def backward_order_Cons)
  define h1 where "h1 = call_node (set_grad this 1 h) this"
  have g: "grad_only h h1"
    unfolding h1_def by (rule grad_only_trans [OF grad_only_set_grad grad_only_call_node])
  have "a \<notin> set (prev_of h u)" if "u \<in> set rest" for u
  proof -
    from that have "u \<noteq> this" and "reachable h this u"
      using backward_order_post(1,3) [OF rank, of this] by (auto simp: order)
    with only have "reachable h a u"
      by (auto dest: reachable_cases)
    with rank show ?thesis by (rule not_operand_of_descendant)
  qed
  then have "\<forall>u \<in> set rest. a \<notin> set (prev_of h1 u)"
    by (simp add: grad_only_prev_of [OF g])
  with wf_heap_grad_only [OF wf g] have "grad (foldl call_node h1 rest) a = grad h1 a"
    by (rule grad_foldl_call_node_other)
  then show ?thesis
    by (simp add: backward_def order h1_def)
qed

lemma grad_backward_this:
  assumes wf: "wf_heap h" and live: "this \<in> fmdom' h"
  shows "grad (backward h this) this = 1"
proof -
  from wf obtain rank where rank: "ranked h rank"
    by (auto simp: wf_heap_def)
  define h1 where "h1 = set_grad this 1 h"
  have g: "grad_only h h1"
    unfolding h1_def by (rule grad_only_set_grad)
  have "this \<notin> set (prev_of h u)" if "u \<in> set (backward_order h this)" for u
  proof -
    from that have "reachable h this u"
      using backward_order_post(3) [OF rank, of this] by simp
    with rank show ?thesis by (rule not_operand_of_descendant)
  qed
  then have "\<forall>u \<in> set (backward_order h this). this \<notin> set (prev_of h1 u)"
    by (simp add: grad_only_prev_of [OF g])
  with wf_heap_grad_only [OF wf g]
  have "grad (foldl call_node h1 (backward_order h this)) this = grad h1 this"
    by (rule grad_foldl_call_node_other)
  with live show ?thesis
    by (simp add: backward_def h1_def grad_set_grad)
qed

subsection \<open>The node an operation allocates\<close>

lemma data_fmupd: "data (fmupd q n h) p = (if p = q then m_data n else data h p)"
  by (simp add: data_def)

lemma grad_fmupd: "grad (fmupd q n h) p = (if p = q then m_grad n else grad h p)"
  by (simp add: grad_def)

lemma backward_fn_of_fmupd:
  "backward_fn_of (fmupd q n h) p = (if p = q then m_backward_fn n else backward_fn_of h p)"
  by (simp add: backward_fn_of_def)

lemmas node_fmupd = data_fmupd grad_fmupd backward_fn_of_fmupd prev_of_fmupd

lemma std_set_single: "std_set [a] = [a]"
  by (simp add: std_set_def std_set_insert_def)

lemma std_set_same: "std_set [a, a] = [a]"
  by (simp add: std_set_def std_set_insert_def)

lemma call_node_set_grad:
  "call_node (set_grad this 1 h) this =
     (case backward_fn_of h this of None \<Rightarrow> set_grad this 1 h
      | Some f \<Rightarrow> call f (set_grad this 1 h))"
  by (simp add: call_node_def grad_only_backward_fn_of [OF grad_only_set_grad])

lemmas grad_steps = grad_add_to_grad grad_set_grad data_add_to_grad data_set_grad
  fmdom'_add_to_grad fmdom'_set_grad

lemma operator_mul_same:
  assumes "built h" and "a \<in> fmdom' h" and "b \<notin> fmdom' h"
  shows "prev_of (operator_mul b a a h) b = [a]"
    and "grad (backward (operator_mul b a a h) b) a = grad h a + data h a + data h a"
    and "data (backward (operator_mul b a a h) b) a = data h a"
proof -
  let ?h = "operator_mul b a a h"
  from assms have ab: "a \<noteq> b" by auto
  have wf: "wf_heap ?h"
    using assms by (intro built_wf_heap built_mul)
  show prev: "prev_of ?h b = [a]"
    by (simp add: operator_mul_def alloc_with_closure node_fmupd Value_op_def std_set_same)
  then have "grad (backward ?h b) a = grad (call_node (set_grad b 1 ?h) b) a"
    by (intro grad_backward_sole_operand [OF wf]) simp
  also have "\<dots> = grad h a + data h a + data h a"
    using ab assms(2)
    by (simp add: call_node_set_grad operator_mul_def alloc_with_closure node_fmupd
        Value_op_def grad_steps)
  finally show "grad (backward ?h b) a = grad h a + data h a + data h a" .
  show "data (backward ?h b) a = data h a"
    using ab
    by (simp add: grad_only_data [OF grad_only_backward] operator_mul_def alloc_with_closure
        node_fmupd)
qed

lemma operator_add_same:
  assumes "built h" and "a \<in> fmdom' h" and "c \<notin> fmdom' h"
  shows "prev_of (operator_add c a a h) c = [a]"
    and "grad (backward (operator_add c a a h) c) a = grad h a + 1 + 1"
proof -
  let ?h = "operator_add c a a h"
  from assms have ac: "a \<noteq> c" by auto
  have wf: "wf_heap ?h"
    using assms by (intro built_wf_heap built_add)
  show prev: "prev_of ?h c = [a]"
    by (simp add: operator_add_def alloc_with_closure node_fmupd Value_op_def std_set_same)
  then have "grad (backward ?h c) a = grad (call_node (set_grad c 1 ?h) c) a"
    by (intro grad_backward_sole_operand [OF wf]) simp
  also have "\<dots> = grad h a + 1 + 1"
    using ac assms(2)
    by (simp add: call_node_set_grad operator_add_def alloc_with_closure node_fmupd
        Value_op_def grad_steps)
  finally show "grad (backward ?h c) a = grad h a + 1 + 1" .
qed

subsection \<open>The increments of a pass\<close>

text \<open>
  The calls \<^verbatim>\<open>add_to_grad(grad_increment)\<close> that a closure makes, as pairs of the node
  called on and the increment, in the order of the calls; \<open>backward_log\<close> collects them
  over the final loop of \<^verbatim>\<open>backward\<close>, and \<open>received calls v\<close> is the sum of the increments
  that \<open>v\<close> was called with.
\<close>

fun call_log :: "backward_fn \<Rightarrow> heap \<Rightarrow> (ptr \<times> real) list" where
  "call_log Noop h = []"
| "call_log (AddFn lhs rhs out) h =
     (let h1 = add_to_grad lhs (grad h out) h
      in [(lhs, grad h out), (rhs, grad h1 out)])"
| "call_log (MulFn lhs rhs out) h =
     (let h1 = add_to_grad lhs (data h rhs * grad h out) h
      in [(lhs, data h rhs * grad h out), (rhs, data h1 lhs * grad h1 out)])"
| "call_log (TanhFn v t out) h = [(v, (1 - t * t) * grad h out)]"
| "call_log (ExpFn v e out) h = [(v, e * grad h out)]"
| "call_log (PowFn base exp_val out) h =
     [(base, (exp_val * std_pow (data h base) (exp_val - 1)) * grad h out)]"

definition call_node_log :: "heap \<Rightarrow> ptr \<Rightarrow> (ptr \<times> real) list" where
  "call_node_log h v = (case backward_fn_of h v of None \<Rightarrow> [] | Some f \<Rightarrow> call_log f h)"

fun run_log :: "heap \<Rightarrow> ptr list \<Rightarrow> (ptr \<times> real) list" where
  "run_log h [] = []"
| "run_log h (v # vs) = call_node_log h v @ run_log (call_node h v) vs"

definition backward_log :: "heap \<Rightarrow> ptr \<Rightarrow> (ptr \<times> real) list" where
  "backward_log h this = run_log (set_grad this 1 h) (backward_order h this)"

definition received :: "(ptr \<times> real) list \<Rightarrow> ptr \<Rightarrow> real" where
  "received calls v = sum_list (map snd (filter (\<lambda>c. fst c = v) calls))"

lemma received_append: "received (xs @ ys) v = received xs v + received ys v"
  by (simp add: received_def)

lemma grad_call_log:
  "v \<in> fmdom' h \<Longrightarrow> grad (call f h) v = grad h v + received (call_log f h) v"
  by (cases f) (simp_all add: Let_def received_def grad_add_to_grad fmdom'_add_to_grad)

lemma grad_call_node_log:
  "v \<in> fmdom' h \<Longrightarrow> grad (call_node h u) v = grad h v + received (call_node_log h u) v"
  by (simp add: call_node_def call_node_log_def grad_call_log received_def split: option.splits)

lemma grad_run_log:
  "v \<in> fmdom' h \<Longrightarrow> grad (foldl call_node h vs) v = grad h v + received (run_log h vs) v"
proof (induction vs arbitrary: h)
  case Nil
  show ?case by (simp add: received_def)
next
  case (Cons u vs)
  have "v \<in> fmdom' (call_node h u)"
    using Cons.prems by (simp add: grad_only_fmdom' [OF grad_only_call_node])
  then have "grad (foldl call_node (call_node h u) vs) v
      = grad (call_node h u) v + received (run_log (call_node h u) vs) v"
    by (rule Cons.IH)
  with Cons.prems show ?case
    by (simp add: grad_call_node_log received_append)
qed

lemma grad_backward_log:
  assumes "v \<in> fmdom' h"
  shows "grad (backward h this) v
           = (if v = this then 1 else grad h v) + received (backward_log h this) v"
proof -
  have "v \<in> fmdom' (set_grad this 1 h)"
    using assms by (simp add: fmdom'_set_grad)
  then have "grad (backward h this) v
      = grad (set_grad this 1 h) v + received (backward_log h this) v"
    unfolding backward_def backward_log_def by (rule grad_run_log)
  with assms show ?thesis
    by (auto simp: grad_set_grad)
qed

subsection \<open>Powers with exponent -1 and -2\<close>

lemma std_pow_minus_one: "std_pow x (- 1) = inverse x"
proof -
  have "\<lfloor>- 1 :: real\<rfloor> = - 1"
    using floor_uminus_of_int [of 1, where ?'a = real] by simp
  then show ?thesis
    by (simp add: std_pow_def power_int_minus)
qed

lemma std_pow_minus_two: "std_pow x (- 2) = inverse (x * x)"
  by (simp add: std_pow_def power_int_minus power2_eq_square)

lemmas unfold_operations = operator_div_def operator_mul_def operator_add_def pow_value_def
  operator_add_vd_def make_value_def make_value_op_def set_backward_fn_def modify_def
  Value_op_def Value_leaf_def std_set_def std_set_insert_def Let_def

lemmas unfold_backward = backward_def backward_order_def build_topo.simps prev_of_def
  call_node_def backward_fn_of_def set_grad_def add_to_grad_def data_def grad_def

subsection \<open>The public interface, one operation at a time\<close>

















subsection \<open>Two small heaps\<close>

text \<open>A heap with one leaf, and a heap with two.\<close>

definition leaf_heap :: heap where
  "leaf_heap = make_value 0 3 ''a'' fmempty"

definition two_leaf_heap :: heap where
  "two_leaf_heap = make_value 1 4 ''b'' (make_value 0 3 ''a'' fmempty)"

lemma built_leaf_heap: "built leaf_heap"
  unfolding leaf_heap_def by (intro built.intros) simp

lemma built_two_leaf_heap: "built two_leaf_heap"
  unfolding two_leaf_heap_def by (intro built.intros) (simp_all add: make_value_def)

lemma leaf_heap_facts:
  "0 \<in> fmdom' leaf_heap" "1 \<notin> fmdom' leaf_heap" "grad leaf_heap 0 = 0"
  by (simp_all add: leaf_heap_def make_value_def grad_def Value_leaf_def)

subsection \<open>The scalar overloads\<close>

text \<open>
  The scalar overloads that value.cpp defines, \<open>+\<close> and \<open>*\<close> on either side and \<open>/\<close> with the
  scalar on the right, on the heap: the scalar is in a new node without label, operands
  or gradient, and the result is the node form applied to it. For a new leaf \<open>j\<close> with
  value 5 and \<open>k = j + 10.0\<close>: the value of \<open>k\<close> is 15, and after \<open>backward\<close> on \<open>k\<close> the
  gradient of \<open>j\<close> is 1. value.hpp also declares \<^verbatim>\<open>operator-(const ValuePtr&, double)\<close> and
  \<^verbatim>\<open>operator-(double, const ValuePtr&)\<close>; value.cpp has no body for either, so no
  definition of this theory stands for them.
\<close>

lemma defined_scalar_overloads:
  assumes "distinct [aj, tmp, ak]"
  shows "fmlookup (make_value t x '''' h) t
           = Some \<lparr>m_data = x, m_grad = 0, m_label = '''', m_op = '''', m_prev = [],
                   m_backward_fn = Some Noop\<rparr> \<and>
         operator_add_vd t out v x h = operator_add out v t (make_value t x '''' h) \<and>
         operator_add_dv t out x v h = operator_add out t v (make_value t x '''' h) \<and>
         operator_mul_vd t out v x h = operator_mul out v t (make_value t x '''' h) \<and>
         operator_mul_dv t out x v h = operator_mul out t v (make_value t x '''' h) \<and>
         operator_div_vd t recip out v x h
           = operator_div recip out v t (make_value t x '''' h) \<and>
         data (operator_add_vd tmp ak aj 10 (make_value aj 5 lj h0)) ak = 15 \<and>
         grad (backward (operator_add_vd tmp ak aj 10 (make_value aj 5 lj h0)) ak) aj = 1"
proof -
  have wrap: "fmlookup (make_value t x '''' h) t
           = Some \<lparr>m_data = x, m_grad = 0, m_label = '''', m_op = '''', m_prev = [],
                   m_backward_fn = Some Noop\<rparr>"
    by (simp add: make_value_def Value_leaf_def)
  have val: "data (operator_add_vd tmp ak aj 10 (make_value aj 5 lj h0)) ak = 15"
    using assms(1) by (simp add: unfold_operations data_def)
  have gr: "grad (backward (operator_add_vd tmp ak aj 10 (make_value aj 5 lj h0)) ak) aj = 1"
    using assms(1) by (simp add: unfold_operations unfold_backward)
  show ?thesis
    using wrap val gr
    by (simp add: operator_add_vd_def operator_add_dv_def operator_mul_vd_def
        operator_mul_dv_def operator_div_vd_def)
qed

section \<open>The claims\<close>

lemma backward_fn_of_foldl_call_node:
  "backward_fn_of (foldl call_node (set_grad this 1 h) xs) v = backward_fn_of h v"
  using grad_only_trans [OF grad_only_set_grad grad_only_foldl_call_node]
  by (rule grad_only_backward_fn_of)

lemma step_calls_closure:
  assumes "backward_fn_of h v = Some f"
  shows "foldl call_node (set_grad this 1 h) (xs @ [v])
           = call f (foldl call_node (set_grad this 1 h) xs)"
  using assms by (simp add: call_node_def backward_fn_of_foldl_call_node)

text \<open>
  C1. In a heap built by the operator layer, \<open>backward h this\<close> sets the gradient of the
  root \<open>this\<close> and then goes through the nodes of \<open>backward_order h this\<close> in that order. Each
  of them has a closure, and the step of the loop at a node \<open>v\<close> is the call of the closure
  of \<open>v\<close> on the heap that the steps before it left. That sequence holds every node
  reachable from the root via the operand relation exactly once and no other node, and
  wherever a node \<open>v\<close> stands in it, every reachable node \<open>u\<close> that has \<open>v\<close> as an operand
  stands before \<open>v\<close>: the closure of \<open>u\<close> has run already.
\<close>

theorem backward_reverse_topological:
  assumes "built h" and "this \<in> fmdom' h"
  shows "backward h this = foldl call_node (set_grad this 1 h) (backward_order h this) \<and>
    (\<forall>v \<in> set (backward_order h this). \<exists>f. backward_fn_of h v = Some f) \<and>
    (\<forall>xs v ys. backward_order h this = xs @ v # ys \<longrightarrow>
       (\<exists>f. backward_fn_of h v = Some f \<and>
          foldl call_node (set_grad this 1 h) (xs @ [v])
            = call f (foldl call_node (set_grad this 1 h) xs))) \<and>
    distinct (backward_order h this) \<and>
    set (backward_order h this) = {v. reachable h this v} \<and>
    (\<forall>xs v ys u. backward_order h this = xs @ v # ys \<and> reachable h this u \<and>
        v \<in> set (prev_of h u) \<longrightarrow> u \<in> set xs)"
proof -
  have wf: "wf_heap h"
    using assms(1) by (rule built_wf_heap)
  then obtain rank where rank: "ranked h rank"
    by (auto simp: wf_heap_def)
  note post = backward_order_post [OF rank, of this]
  have before: "u \<in> set xs"
    if "backward_order h this = xs @ v # ys" "reachable h this u" "v \<in> set (prev_of h u)"
    for xs v ys u
  proof -
    from that(2) have "u \<in> set (backward_order h this)"
      by (simp add: post(3))
    with post(1,2) that(1) show ?thesis
      using that(3) by (rule consumer_before_operand)
  qed
  have closure: "\<exists>f. backward_fn_of h v = Some f" if "v \<in> set (backward_order h this)" for v
  proof -
    from that have "reachable h this v" by (simp add: post(3))
    then have "v \<in> fmdom' h" using wf assms(2) by (rule reachable_live)
    with wf show ?thesis by (rule live_node_has_closure)
  qed
  have step: "\<exists>f. backward_fn_of h v = Some f \<and>
      foldl call_node (set_grad this 1 h) (xs @ [v])
        = call f (foldl call_node (set_grad this 1 h) xs)"
    if "backward_order h this = xs @ v # ys" for xs v ys
  proof -
    from that have "v \<in> set (backward_order h this)" by simp
    then obtain f where "backward_fn_of h v = Some f"
      using closure by blast
    then show ?thesis
      using step_calls_closure by blast
  qed
  have "backward h this = foldl call_node (set_grad this 1 h) (backward_order h this)"
    by (simp add: backward_def)
  with before closure step post(1,3) show ?thesis
    by blast
qed

theorem backward_reverse_topological_witness:
  "built (operator_mul 1 0 0 leaf_heap) \<and> 1 \<in> fmdom' (operator_mul 1 0 0 leaf_heap) \<and>
   backward_order (operator_mul 1 0 0 leaf_heap) 1 = [1] @ 0 # [] \<and>
   reachable (operator_mul 1 0 0 leaf_heap) 1 1 \<and>
   0 \<in> set (prev_of (operator_mul 1 0 0 leaf_heap) 1) \<and>
   1 \<in> set [1 :: nat] \<and>
   distinct (backward_order (operator_mul 1 0 0 leaf_heap) 1) \<and>
   set (backward_order (operator_mul 1 0 0 leaf_heap) 1)
     = {v. reachable (operator_mul 1 0 0 leaf_heap) 1 v} \<and>
   (\<exists>f. backward_fn_of (operator_mul 1 0 0 leaf_heap) 0 = Some f) \<and>
   backward_order (operator_mul 1 0 0 leaf_heap) 1 = [] @ 1 # [0] \<and>
   backward_fn_of (operator_mul 1 0 0 leaf_heap) 1 = Some (MulFn 0 0 1) \<and>
   foldl call_node (set_grad 1 1 (operator_mul 1 0 0 leaf_heap)) ([] @ [1])
     = call (MulFn 0 0 1) (foldl call_node (set_grad 1 1 (operator_mul 1 0 0 leaf_heap)) []) \<and>
   grad (foldl call_node (set_grad 1 1 (operator_mul 1 0 0 leaf_heap)) ([] @ [1])) 0 = 6"
proof -
  let ?H = "operator_mul 1 0 0 leaf_heap"
  have b: "built ?H"
    by (intro built_mul built_leaf_heap leaf_heap_facts)
  have l: "1 \<in> fmdom' ?H"
    by (simp add: operator_mul_def alloc_with_closure)
  have order: "backward_order ?H 1 = [1] @ 0 # []"
    by (simp add: leaf_heap_def unfold_operations backward_order_def build_topo.simps
        prev_of_def)
  have order': "backward_order ?H 1 = [] @ 1 # [0]"
    using order by simp
  have r: "reachable ?H 1 1"
    by (rule reachable_root)
  have p: "0 \<in> set (prev_of ?H 1)"
    by (simp add: leaf_heap_def unfold_operations prev_of_def)
  have c: "backward_fn_of ?H 1 = Some (MulFn 0 0 1)"
    by (simp add: leaf_heap_def unfold_operations backward_fn_of_def)
  note inst = backward_reverse_topological [OF b l]
  from inst order r p have m: "1 \<in> set [1 :: nat]"
    by blast
  from inst order have e: "\<exists>f. backward_fn_of ?H 0 = Some f"
    by simp
  from inst order' obtain f where "backward_fn_of ?H 1 = Some f"
    and "foldl call_node (set_grad 1 1 ?H) ([] @ [1])
           = call f (foldl call_node (set_grad 1 1 ?H) [])"
    by blast
  with c have s: "foldl call_node (set_grad 1 1 ?H) ([] @ [1])
      = call (MulFn 0 0 1) (foldl call_node (set_grad 1 1 ?H) [])"
    by simp
  have "grad (call (MulFn 0 0 1) (foldl call_node (set_grad 1 1 ?H) [])) 0 = 6"
    by (simp add: leaf_heap_def unfold_operations set_grad_def add_to_grad_def data_def
        grad_def)
  with s have g: "grad (foldl call_node (set_grad 1 1 ?H) ([] @ [1])) 0 = 6"
    by simp
  from b l order r p m inst e order' c s g show ?thesis
    by blast
qed

text \<open>
  C2. For every node \<open>a\<close> of a built heap with gradient 0 and \<open>b = a * a\<close>, a new node with
  \<open>a\<close> as both operands: after \<open>backward\<close> on \<open>b\<close> the gradient of \<open>a\<close> is twice its value.
\<close>

theorem square_gradient_is_twice_value:
  assumes "built h" and "a \<in> fmdom' h" and "grad h a = 0" and "b \<notin> fmdom' h"
  shows "grad (backward (operator_mul b a a h) b) a
           = 2 * data (backward (operator_mul b a a h) b) a"
  using operator_mul_same(2,3) [OF assms(1,2,4)] assms(3) by simp

theorem square_gradient_is_twice_value_witness:
  "built leaf_heap \<and> 0 \<in> fmdom' leaf_heap \<and> grad leaf_heap 0 = 0 \<and> 1 \<notin> fmdom' leaf_heap \<and>
   grad (backward (operator_mul 1 0 0 leaf_heap) 1) 0
     = 2 * data (backward (operator_mul 1 0 0 leaf_heap) 1) 0"
  using built_leaf_heap leaf_heap_facts
    square_gradient_is_twice_value [OF built_leaf_heap leaf_heap_facts(1,3,2)]
  by simp

text \<open>
  C3. For new leaves \<open>g\<close> with value 8 and \<open>h\<close> with value 2 and \<open>i = g / h\<close>, which is
  \<open>g * pow(h, -1)\<close> with the reciprocal in a node of its own: the value of \<open>i\<close> is 4, and after
  \<open>backward\<close> on \<open>i\<close> the gradient of \<open>g\<close> is 1/2 and the gradient of \<open>h\<close> is -2.
\<close>

theorem division_scenario:
  assumes "distinct [ag, ah, ar, ai]" and "set [ag, ah, ar, ai] \<inter> fmdom' h0 = {}"
  shows "operator_div ar ai ag ah (make_value ah 2 lh (make_value ag 8 lg h0))
           = operator_mul ai ag ar (pow_value ar ah (- 1)
               (make_value ah 2 lh (make_value ag 8 lg h0))) \<and>
         data (operator_div ar ai ag ah (make_value ah 2 lh (make_value ag 8 lg h0))) ai = 4 \<and>
         grad (backward (operator_div ar ai ag ah
                 (make_value ah 2 lh (make_value ag 8 lg h0))) ai) ag = 1 / 2 \<and>
         grad (backward (operator_div ar ai ag ah
                 (make_value ah 2 lh (make_value ag 8 lg h0))) ai) ah = - 2"
proof (intro conjI)
  show "operator_div ar ai ag ah (make_value ah 2 lh (make_value ag 8 lg h0))
           = operator_mul ai ag ar (pow_value ar ah (- 1)
               (make_value ah 2 lh (make_value ag 8 lg h0)))"
    by (simp add: operator_div_def)
  show "data (operator_div ar ai ag ah (make_value ah 2 lh (make_value ag 8 lg h0))) ai = 4"
    using assms(1) by (simp add: unfold_operations data_def std_pow_minus_one)
  show "grad (backward (operator_div ar ai ag ah
                 (make_value ah 2 lh (make_value ag 8 lg h0))) ai) ag = 1 / 2"
    using assms(1)
    by (simp add: unfold_operations unfold_backward std_pow_minus_one std_pow_minus_two)
  show "grad (backward (operator_div ar ai ag ah
                 (make_value ah 2 lh (make_value ag 8 lg h0))) ai) ah = - 2"
    using assms(1)
    by (simp add: unfold_operations unfold_backward std_pow_minus_one std_pow_minus_two)
qed

theorem division_scenario_witness:
  "distinct [0, 1, 2, 3 :: nat] \<and> set [0, 1, 2, 3] \<inter> fmdom' fmempty = {} \<and>
   data (operator_div 2 3 0 1 (make_value 1 2 ''h'' (make_value 0 8 ''g'' fmempty))) 3 = 4 \<and>
   grad (backward (operator_div 2 3 0 1
           (make_value 1 2 ''h'' (make_value 0 8 ''g'' fmempty))) 3) 0 = 1 / 2 \<and>
   grad (backward (operator_div 2 3 0 1
           (make_value 1 2 ''h'' (make_value 0 8 ''g'' fmempty))) 3) 1 = - 2"
proof -
  have d: "distinct [0, 1, 2, 3 :: nat]" by simp
  have f: "set [0, 1, 2, 3] \<inter> fmdom' fmempty = {}" by simp
  show ?thesis
    using d f division_scenario [OF d f, of "''h''" "''g''"] by blast
qed

text \<open>
  C4. For every node \<open>a\<close> of a built heap with gradient 0 (a leaf or not) and
  \<open>f = tanh(a)\<close>: the value of \<open>f\<close> is the hyperbolic tangent of the value of \<open>a\<close>, and
  after \<open>backward\<close> on \<open>f\<close> the gradient of \<open>a\<close> is 1 minus the square of the value of \<open>f\<close>.
\<close>

theorem tanh_value_and_gradient:
  assumes "built h" and "a \<in> fmdom' h" and "grad h a = 0" and "f \<notin> fmdom' h"
  shows "data (tanh_value f a h) f = tanh (data h a) \<and>
         grad (backward (tanh_value f a h) f) a
           = 1 - (data (backward (tanh_value f a h) f) f)\<^sup>2"
proof -
  let ?h = "tanh_value f a h"
  from assms have af: "a \<noteq> f" by auto
  have wf: "wf_heap ?h"
    using assms by (intro built_wf_heap built_tanh)
  have val: "data ?h f = tanh (data h a)"
    by (simp add: tanh_value_def Let_def alloc_with_closure node_fmupd Value_op_def)
  have "prev_of ?h f = [a]"
    by (simp add: tanh_value_def Let_def alloc_with_closure node_fmupd Value_op_def std_set_single)
  then have "grad (backward ?h f) a = grad (call_node (set_grad f 1 ?h) f) a"
    by (intro grad_backward_sole_operand [OF wf]) simp
  also have "\<dots> = 1 - tanh (data h a) * tanh (data h a)"
    using af assms(2,3)
    by (simp add: call_node_set_grad tanh_value_def Let_def alloc_with_closure node_fmupd
        Value_op_def grad_steps)
  finally have "grad (backward ?h f) a = 1 - (data ?h f)\<^sup>2"
    by (simp add: val power2_eq_square)
  then show ?thesis
    by (simp add: val grad_only_data [OF grad_only_backward])
qed

theorem tanh_value_and_gradient_witness:
  "built leaf_heap \<and> 0 \<in> fmdom' leaf_heap \<and> grad leaf_heap 0 = 0 \<and> 1 \<notin> fmdom' leaf_heap \<and>
   data (tanh_value 1 0 leaf_heap) 1 = tanh (data leaf_heap 0) \<and>
   grad (backward (tanh_value 1 0 leaf_heap) 1) 0
     = 1 - (data (backward (tanh_value 1 0 leaf_heap) 1) 1)\<^sup>2"
  using built_leaf_heap leaf_heap_facts
    tanh_value_and_gradient [OF built_leaf_heap leaf_heap_facts(1,3,2)]
  by simp

text \<open>
  C7. \<open>backward\<close> never resets a gradient. In a built heap, a pass leaves the gradient of
  the root at 1, and the gradient of every other node at its old value plus the increments
  that the closures of the pass called it with; after a second pass without a reset it is
  the old value plus the increments of both passes. For distinct new leaves \<open>a\<close> and \<open>b\<close>
  and \<open>c = a + b\<close>, two passes from \<open>c\<close> leave the gradients of \<open>a\<close> and \<open>b\<close> at 2.
\<close>

theorem gradients_accumulate_over_passes:
  assumes "built h" and "this \<in> fmdom' h" and "v \<in> fmdom' h" and "v \<noteq> this"
    and "fmlookup h0 a = Some (Value_leaf va la)" and "fmlookup h0 b = Some (Value_leaf vb lb)"
    and "a \<noteq> b" and "c \<notin> fmdom' h0"
  shows "grad (backward h this) v = grad h v + received (backward_log h this) v \<and>
         grad (backward (backward h this) this) v
           = grad h v + received (backward_log h this) v
               + received (backward_log (backward h this) this) v \<and>
         grad (backward h this) this = 1 \<and>
         grad (backward (backward h this) this) this = 1 \<and>
         grad (backward (backward (operator_add c a b h0) c) c) a = 2 \<and>
         grad (backward (backward (operator_add c a b h0) c) c) b = 2"
proof -
  let ?h1 = "backward h this"
  have dom1: "fmdom' ?h1 = fmdom' h"
    by (rule grad_only_fmdom' [OF grad_only_backward])
  have wf: "wf_heap h"
    using assms(1) by (rule built_wf_heap)
  have wf1: "wf_heap ?h1"
    using wf grad_only_backward by (rule wf_heap_grad_only)
  have p1: "grad ?h1 v = grad h v + received (backward_log h this) v"
    using assms(3,4) by (simp add: grad_backward_log)
  have "grad (backward ?h1 this) v = grad ?h1 v + received (backward_log ?h1 this) v"
    using assms(3,4) by (simp add: grad_backward_log dom1)
  with p1 have p2: "grad (backward ?h1 this) v
      = grad h v + received (backward_log h this) v + received (backward_log ?h1 this) v"
    by simp
  have r1: "grad ?h1 this = 1"
    using wf assms(2) by (rule grad_backward_this)
  have r2: "grad (backward ?h1 this) this = 1"
    using wf1 assms(2) by (intro grad_backward_this) (simp_all add: dom1)
  from assms(5,6,8) have ac: "a \<noteq> c" "b \<noteq> c"
    by (auto dest: fmdom'I)
  have ea: "grad (backward (backward (operator_add c a b h0) c) c) a = 2"
    using assms(5-7) ac by (simp add: unfold_operations unfold_backward)
  have eb: "grad (backward (backward (operator_add c a b h0) c) c) b = 2"
    using assms(5-7) ac by (simp add: unfold_operations unfold_backward)
  from p1 p2 r1 r2 ea eb show ?thesis by simp
qed

theorem gradients_accumulate_over_passes_witness:
  "built (operator_add 2 0 1 two_leaf_heap) \<and> 2 \<in> fmdom' (operator_add 2 0 1 two_leaf_heap) \<and>
   0 \<in> fmdom' (operator_add 2 0 1 two_leaf_heap) \<and> (0 :: nat) \<noteq> 2 \<and>
   fmlookup two_leaf_heap 0 = Some (Value_leaf 3 ''a'') \<and>
   fmlookup two_leaf_heap 1 = Some (Value_leaf 4 ''b'') \<and> (0 :: nat) \<noteq> 1 \<and>
   2 \<notin> fmdom' two_leaf_heap \<and>
   grad (backward (backward (operator_add 2 0 1 two_leaf_heap) 2) 2) 0
     = grad (operator_add 2 0 1 two_leaf_heap) 0
       + received (backward_log (operator_add 2 0 1 two_leaf_heap) 2) 0
       + received (backward_log (backward (operator_add 2 0 1 two_leaf_heap) 2) 2) 0 \<and>
   grad (backward (backward (operator_add 2 0 1 two_leaf_heap) 2) 2) 2 = 1 \<and>
   grad (backward (backward (operator_add 2 0 1 two_leaf_heap) 2) 2) 0 = 2 \<and>
   grad (backward (backward (operator_add 2 0 1 two_leaf_heap) 2) 2) 1 = 2"
proof -
  have fresh: "2 \<notin> fmdom' two_leaf_heap"
    by (simp add: two_leaf_heap_def make_value_def)
  have la: "fmlookup two_leaf_heap 0 = Some (Value_leaf 3 ''a'')"
    and lb: "fmlookup two_leaf_heap 1 = Some (Value_leaf 4 ''b'')"
    by (simp_all add: two_leaf_heap_def make_value_def)
  have b: "built (operator_add 2 0 1 two_leaf_heap)"
    using fresh la lb by (intro built_add built_two_leaf_heap) (auto dest: fmdom'I)
  have dom: "2 \<in> fmdom' (operator_add 2 0 1 two_leaf_heap)"
    "0 \<in> fmdom' (operator_add 2 0 1 two_leaf_heap)"
    using la by (auto simp: operator_add_def alloc_with_closure dest: fmdom'I)
  have ne: "(0 :: nat) \<noteq> 2" "(0 :: nat) \<noteq> 1" by simp_all
  show ?thesis
    using b dom ne la lb fresh
      gradients_accumulate_over_passes [OF b dom ne(1) la lb ne(2) fresh]
    by blast
qed




text \<open>
  C9. \<^verbatim>\<open>backward\<close> modifies only gradient fields: after \<open>backward h this\<close> the heap holds
  the same addresses, and every node of the heap, reachable from \<open>this\<close> or not, has its
  value, label, operation name, operand set and backward closure unchanged.
\<close>

theorem backward_modifies_only_grad:
  "fmdom' (backward h this) = fmdom' h \<and>
   (\<forall>p n. fmlookup h p = Some n \<longrightarrow>
      (\<exists>n'. fmlookup (backward h this) p = Some n' \<and>
            m_data n' = m_data n \<and> m_label n' = m_label n \<and> m_op n' = m_op n \<and>
            m_prev n' = m_prev n \<and> m_backward_fn n' = m_backward_fn n))"
proof (intro conjI allI impI)
  show "fmdom' (backward h this) = fmdom' h"
    by (rule grad_only_fmdom' [OF grad_only_backward])
next
  fix p n
  assume "fmlookup h p = Some n"
  then obtain g where "fmlookup (backward h this) p = Some (n\<lparr>m_grad := g\<rparr>)"
    using grad_only_lookup [OF grad_only_backward] by blast
  then show "\<exists>n'. fmlookup (backward h this) p = Some n' \<and>
            m_data n' = m_data n \<and> m_label n' = m_label n \<and> m_op n' = m_op n \<and>
            m_prev n' = m_prev n \<and> m_backward_fn n' = m_backward_fn n"
    by simp
qed

theorem backward_modifies_only_grad_witness:
  "fmlookup (make_value 0 3 ''a'' fmempty) 0 = Some (Value_leaf 3 ''a'') \<and>
   (\<exists>n'. fmlookup (backward (make_value 0 3 ''a'' fmempty) 0) 0 = Some n' \<and>
         m_data n' = 3 \<and> m_label n' = ''a'' \<and> m_op n' = '''' \<and>
         m_prev n' = [] \<and> m_backward_fn n' = Some Noop)"
proof -
  have l: "fmlookup (make_value 0 3 ''a'' fmempty) 0 = Some (Value_leaf 3 ''a'')"
    by (simp add: make_value_def)
  have "\<exists>n'. fmlookup (backward (make_value 0 3 ''a'' fmempty) 0) 0 = Some n' \<and>
         m_data n' = m_data (Value_leaf 3 ''a'') \<and> m_label n' = m_label (Value_leaf 3 ''a'') \<and>
         m_op n' = m_op (Value_leaf 3 ''a'') \<and> m_prev n' = m_prev (Value_leaf 3 ''a'') \<and>
         m_backward_fn n' = m_backward_fn (Value_leaf 3 ''a'')"
    using l backward_modifies_only_grad [of "make_value 0 3 ''a'' fmempty" 0] by blast
  then show ?thesis
    using l by (simp add: Value_leaf_def)
qed

text \<open>
  C10. When both operands of \<open>+\<close> or \<open>*\<close> are the same node \<open>a\<close>, the operand set of the
  result holds the one element \<open>a\<close>, and \<open>backward\<close> on the result still adds to the gradient
  of \<open>a\<close> once per occurrence: twice the gradient of the result (which is 1) for \<open>+\<close>, twice
  the value of \<open>a\<close> for \<open>*\<close>.
\<close>

theorem same_operand_twice:
  assumes "built h" and "a \<in> fmdom' h" and "c \<notin> fmdom' h"
  shows "prev_of (operator_add c a a h) c = [a] \<and>
         grad (backward (operator_add c a a h) c) a = grad h a + 1 + 1 \<and>
         prev_of (operator_mul c a a h) c = [a] \<and>
         grad (backward (operator_mul c a a h) c) a = grad h a + data h a + data h a"
  using operator_add_same [OF assms] operator_mul_same(1,2) [OF assms] by simp

theorem same_operand_twice_witness:
  "built leaf_heap \<and> 0 \<in> fmdom' leaf_heap \<and> 1 \<notin> fmdom' leaf_heap \<and>
   prev_of (operator_add 1 0 0 leaf_heap) 1 = [0] \<and>
   grad (backward (operator_add 1 0 0 leaf_heap) 1) 0 = grad leaf_heap 0 + 1 + 1 \<and>
   prev_of (operator_mul 1 0 0 leaf_heap) 1 = [0] \<and>
   grad (backward (operator_mul 1 0 0 leaf_heap) 1) 0
     = grad leaf_heap 0 + data leaf_heap 0 + data leaf_heap 0"
  using built_leaf_heap leaf_heap_facts(1,2)
    same_operand_twice [OF built_leaf_heap leaf_heap_facts(1,2)]
  by simp

end
